theory Spec2Isabelle
  imports Main
begin

section \<open>The entity store\<close>

text \<open>
  The ids of the documents are ObjectIds: the controllers call \<open>toString()\<close> on them,
  populate through them, and hand them to \<open>findById\<close>. An ObjectId is kept as its
  string form, which is what \<open>toString()\<close> returns and what the handlers compare: 24
  hexadecimal digits, the letters in lower case. A string of a request body is not yet an
  id. Where the driver needs an id it casts the string: 24 hexadecimal digits in either
  case give the id with these digits, any other string is a \<open>CastError\<close>. (Some
  versions of the driver also read a string of 12 characters as the twelve bytes of an
  id. No statement below depends on what the cast does with a string of that length.)
\<close>

type_synonym oid = string

definition isObjectId :: "string \<Rightarrow> bool" where
  "isObjectId s = (length s = 24 \<and> list_all (\<lambda>c. c \<in> set ''0123456789abcdef'') s)"

definition isHex :: "char \<Rightarrow> bool" where
  "isHex c = (c \<in> set ''0123456789abcdefABCDEF'')"

definition toLowerHex :: "char \<Rightarrow> char" where
  "toLowerHex c =
     (if c = CHR ''A'' then CHR ''a'' else if c = CHR ''B'' then CHR ''b''
      else if c = CHR ''C'' then CHR ''c'' else if c = CHR ''D'' then CHR ''d''
      else if c = CHR ''E'' then CHR ''e'' else if c = CHR ''F'' then CHR ''f'' else c)"

definition castObjectId :: "string \<Rightarrow> oid option" where
  "castObjectId s =
     (if length s = 24 \<and> list_all isHex s then Some (map toLowerHex s) else None)"

text \<open>
  What a handler passes where the driver expects an id: a string of the request body
  (\<open>Str\<close>), or an ObjectId it holds (\<open>Oid\<close>, as \<open>req.user._id\<close>). \<open>castArg\<close> is the
  driver's cast, \<open>argString\<close> the string the value is compared as.
\<close>

datatype idArg = Str string | Oid oid

fun castArg :: "idArg \<Rightarrow> oid option" where
  "castArg (Str s) = castObjectId s"
| "castArg (Oid i) = Some i"

fun argString :: "idArg \<Rightarrow> string" where
  "argString (Str s) = s"
| "argString (Oid i) = i"

text \<open>The fields of a User document that the relationship handlers read or write.\<close>

record user =
  followedUsers :: "oid list"
  followers :: "oid list"
  bookmarkedResources :: "oid list"

record vote =
  resource :: oid
  upvoters :: "oid list"
  downvoters :: "oid list"

record resourceDoc =
  rid :: oid
  url :: string

record topic =
  name :: string
  slug :: string
  description :: string
  resources :: "oid list"

text \<open>
  The collections. Users are addressed by id. The Topic, Resource and Vote collections
  are kept as the sequences of their documents: \<open>findOne\<close> returns the first document
  that matches, and the number of Vote documents of one resource can be counted.
\<close>

record store =
  users :: "oid \<rightharpoonup> user"
  topics :: "topic list"
  resourceDocs :: "resourceDoc list"
  votes :: "vote list"

text \<open>
  Every store call is awaited inside a \<open>try\<close> block and may throw. Which call sites
  throw is a parameter of each handler; \<open>noFault\<close> is the store that answers every call.
\<close>

datatype error = StoreUnavailable | ConflictOnCreate | CastError | DocumentNotFound

datatype site =
  UserFindById | ReqUserSave | UserSave | TopicFindOne | VoteFindOne oid | VoteCreate oid

type_synonym faults = "site \<Rightarrow> bool"

definition noFault :: faults where
  "noFault = (\<lambda>_. False)"

text \<open>
  \<open>User.findById\<close> casts its argument and returns the document with that id, which
  carries the id (\<open>_id\<close>) it was found under.
\<close>

definition findById :: "faults \<Rightarrow> store \<Rightarrow> idArg \<Rightarrow> error + (oid \<times> user) option" where
  "findById f st v =
     (if f UserFindById then Inl StoreUnavailable
      else
        (case castArg v of
           None \<Rightarrow> Inl CastError
         | Some i \<Rightarrow> Inr (map_option (Pair i) (users st i))))"

text \<open>
  The two array methods the handlers use on a list of ids. \<open>includes\<close> (named
  \<open>includesId\<close> here) compares the string of its argument with the string form of
  each id in the list, without a cast. \<open>push\<close> casts its argument and appends the id;
  a string that cannot be cast makes it throw.
\<close>

definition includesId :: "oid list \<Rightarrow> idArg \<Rightarrow> bool" where
  "includesId xs v = (argString v \<in> set xs)"

definition push :: "oid list \<Rightarrow> idArg \<Rightarrow> error + oid list" where
  "push xs v = (case castArg v of None \<Rightarrow> Inl CastError | Some i \<Rightarrow> Inr (xs @ [i]))"

text \<open>
  \<open>doc.save()\<close> writes the paths of the document that the handler has modified; each
  handler modifies one list of a document before it saves it. \<open>copyPath p doc stored\<close>
  is the stored document with the list \<open>p\<close> taken from the document in memory.
\<close>

datatype path = FollowedUsers | Followers | BookmarkedResources

fun copyPath :: "path \<Rightarrow> user \<Rightarrow> user \<Rightarrow> user" where
  "copyPath FollowedUsers doc stored = stored\<lparr>followedUsers := followedUsers doc\<rparr>"
| "copyPath Followers doc stored = stored\<lparr>followers := followers doc\<rparr>"
| "copyPath BookmarkedResources doc stored =
     stored\<lparr>bookmarkedResources := bookmarkedResources doc\<rparr>"

definition writeUser :: "store \<Rightarrow> oid \<Rightarrow> user \<Rightarrow> store" where
  "writeUser st i doc = st\<lparr>users := (users st)(i \<mapsto> doc)\<rparr>"

definition save ::
  "faults \<Rightarrow> site \<Rightarrow> store \<Rightarrow> oid \<Rightarrow> path \<Rightarrow> user \<Rightarrow> error + store" where
  "save f s st i p doc =
     (if f s then Inl StoreUnavailable
      else
        (case users st i of
           None \<Rightarrow> Inl DocumentNotFound
         | Some stored \<Rightarrow> Inr (writeUser st i (copyPath p doc stored))))"

section \<open>Requests and responses\<close>

record body =
  resourceId :: "string option"
  userIdToFollow :: "string option"
  userIdToUnfollow :: "string option"

text \<open>
  \<open>reqUserId\<close> is \<open>req.user._id\<close> and \<open>reqUser\<close> the document \<open>req.user\<close> that the
  authentication middleware attached to the request.
\<close>

record request =
  reqUserId :: oid
  reqUser :: user
  body :: body

datatype payload =
  Message string
  | IdList "oid list"
  | FollowLists "oid list" "oid list"
  | TopicJson topic "(resourceDoc \<times> nat \<times> nat) list"

datatype response = Response (status: nat) (json: payload)

section \<open>The user controller\<close>

definition bookmarkResource :: "faults \<Rightarrow> request \<Rightarrow> store \<Rightarrow> response \<times> store" where
  "bookmarkResource f req st =
     (case resourceId (body req) of
        None \<Rightarrow> (Response 400 (Message ''Resource ID is required''), st)
      | Some r \<Rightarrow>
          if r = [] then (Response 400 (Message ''Resource ID is required''), st)
          else
            (case findById f st (Oid (reqUserId req)) of
               Inl e \<Rightarrow> (Response 500 (Message ''Server error while bookmarking resource''), st)
             | Inr None \<Rightarrow> (Response 404 (Message ''User not found''), st)
             | Inr (Some (i, u)) \<Rightarrow>
                 if \<not> includesId (bookmarkedResources u) (Str r) then
                   (case push (bookmarkedResources u) (Str r) of
                      Inl e \<Rightarrow>
                        (Response 500 (Message ''Server error while bookmarking resource''), st)
                    | Inr pushed \<Rightarrow>
                        (case save f UserSave st i BookmarkedResources
                                (u\<lparr>bookmarkedResources := pushed\<rparr>) of
                           Inl e \<Rightarrow>
                             (Response 500
                                (Message ''Server error while bookmarking resource''), st)
                         | Inr st1 \<Rightarrow> (Response 200 (IdList pushed), st1)))
                 else (Response 200 (IdList (bookmarkedResources u)), st)))"

definition unbookmarkResource :: "faults \<Rightarrow> request \<Rightarrow> store \<Rightarrow> response \<times> store" where
  "unbookmarkResource f req st =
     (case resourceId (body req) of
        None \<Rightarrow> (Response 400 (Message ''Resource ID is required''), st)
      | Some r \<Rightarrow>
          if r = [] then (Response 400 (Message ''Resource ID is required''), st)
          else
            (case findById f st (Oid (reqUserId req)) of
               Inl e \<Rightarrow>
                 (Response 500 (Message ''Server error while unbookmarking resource''), st)
             | Inr None \<Rightarrow> (Response 404 (Message ''User not found''), st)
             | Inr (Some (i, u)) \<Rightarrow>
                 if includesId (bookmarkedResources u) (Str r) then
                   (case save f UserSave st i BookmarkedResources
                           (u\<lparr>bookmarkedResources :=
                                filter (\<lambda>id. id \<noteq> r) (bookmarkedResources u)\<rparr>) of
                      Inl e \<Rightarrow>
                        (Response 500 (Message ''Server error while unbookmarking resource''), st)
                    | Inr st1 \<Rightarrow>
                        (Response 200
                           (IdList (filter (\<lambda>id. id \<noteq> r) (bookmarkedResources u))),
                         st1))
                 else (Response 200 (IdList (bookmarkedResources u)), st)))"

text \<open>
  \<open>followUser\<close> works on two documents held in memory: \<open>req.user\<close> and the
  \<open>userToFollow\<close> it has just read. Each is pushed to and saved only when \<open>includes\<close>
  does not find the id in its list. A push or a save that throws leaves the handler
  through \<open>catch\<close>, with whatever was saved before it still in the store.
  \<open>followUser_target\<close> is the second half of the \<open>try\<close> block (the followed user's
  side and the response), entered with the id \<open>userToFollow\<close> was found under and with
  the \<open>req.user\<close> document as the first half left it.
\<close>

definition followUser_target ::
  "faults \<Rightarrow> request \<Rightarrow> oid \<Rightarrow> user \<Rightarrow> user \<Rightarrow> store \<Rightarrow> response \<times> store" where
  "followUser_target f req i userToFollow actor st =
     (if \<not> includesId (followers userToFollow) (Oid (reqUserId req)) then
        (case push (followers userToFollow) (Oid (reqUserId req)) of
           Inl e \<Rightarrow> (Response 500 (Message ''Server error while following user''), st)
         | Inr pushed \<Rightarrow>
             (case save f UserSave st i Followers (userToFollow\<lparr>followers := pushed\<rparr>) of
                Inl e \<Rightarrow> (Response 500 (Message ''Server error while following user''), st)
              | Inr st1 \<Rightarrow>
                  (Response 200 (FollowLists (followedUsers actor) pushed), st1)))
      else (Response 200 (FollowLists (followedUsers actor) (followers userToFollow)), st))"

definition followUser :: "faults \<Rightarrow> request \<Rightarrow> store \<Rightarrow> response \<times> store" where
  "followUser f req st =
     (case userIdToFollow (body req) of
        None \<Rightarrow> (Response 400 (Message ''User ID to follow is required''), st)
      | Some t \<Rightarrow>
          if t = [] then (Response 400 (Message ''User ID to follow is required''), st)
          else if t = reqUserId req then
            (Response 400 (Message ''You cannot follow yourself''), st)
          else
            (case findById f st (Str t) of
               Inl e \<Rightarrow> (Response 500 (Message ''Server error while following user''), st)
             | Inr None \<Rightarrow> (Response 404 (Message ''User to follow not found''), st)
             | Inr (Some (i, userToFollow)) \<Rightarrow>
                 if \<not> includesId (followedUsers (reqUser req)) (Str t) then
                   (case push (followedUsers (reqUser req)) (Str t) of
                      Inl e \<Rightarrow>
                        (Response 500 (Message ''Server error while following user''), st)
                    | Inr pushed \<Rightarrow>
                        (case save f ReqUserSave st (reqUserId req) FollowedUsers
                                ((reqUser req)\<lparr>followedUsers := pushed\<rparr>) of
                           Inl e \<Rightarrow>
                             (Response 500 (Message ''Server error while following user''), st)
                         | Inr st1 \<Rightarrow>
                             followUser_target f req i userToFollow
                               ((reqUser req)\<lparr>followedUsers := pushed\<rparr>) st1))
                 else followUser_target f req i userToFollow (reqUser req) st))"

definition unfollowUser_target ::
  "faults \<Rightarrow> request \<Rightarrow> oid \<Rightarrow> user \<Rightarrow> user \<Rightarrow> store \<Rightarrow> response \<times> store" where
  "unfollowUser_target f req i userToUnfollow actor st =
     (if includesId (followers userToUnfollow) (Oid (reqUserId req)) then
        (case save f UserSave st i Followers
                (userToUnfollow
                   \<lparr>followers :=
                        filter (\<lambda>id. id \<noteq> reqUserId req) (followers userToUnfollow)\<rparr>) of
           Inl e \<Rightarrow> (Response 500 (Message ''Server error while unfollowing user''), st)
         | Inr st1 \<Rightarrow>
             (Response 200
                (FollowLists (followedUsers actor)
                   (filter (\<lambda>id. id \<noteq> reqUserId req) (followers userToUnfollow))),
              st1))
      else (Response 200 (FollowLists (followedUsers actor) (followers userToUnfollow)), st))"

definition unfollowUser :: "faults \<Rightarrow> request \<Rightarrow> store \<Rightarrow> response \<times> store" where
  "unfollowUser f req st =
     (case userIdToUnfollow (body req) of
        None \<Rightarrow> (Response 400 (Message ''User ID to unfollow is required''), st)
      | Some t \<Rightarrow>
          if t = [] then (Response 400 (Message ''User ID to unfollow is required''), st)
          else if t = reqUserId req then
            (Response 400 (Message ''You cannot unfollow yourself''), st)
          else
            (case findById f st (Str t) of
               Inl e \<Rightarrow> (Response 500 (Message ''Server error while unfollowing user''), st)
             | Inr None \<Rightarrow> (Response 404 (Message ''User to unfollow not found''), st)
             | Inr (Some (i, userToUnfollow)) \<Rightarrow>
                 if includesId (followedUsers (reqUser req)) (Str t) then
                   (case save f ReqUserSave st (reqUserId req) FollowedUsers
                           ((reqUser req)
                              \<lparr>followedUsers :=
                                   filter (\<lambda>id. id \<noteq> t) (followedUsers (reqUser req))\<rparr>) of
                      Inl e \<Rightarrow>
                        (Response 500 (Message ''Server error while unfollowing user''), st)
                    | Inr st1 \<Rightarrow>
                        unfollowUser_target f req i userToUnfollow
                          ((reqUser req)
                             \<lparr>followedUsers :=
                                  filter (\<lambda>id. id \<noteq> t) (followedUsers (reqUser req))\<rparr>)
                          st1)
                 else unfollowUser_target f req i userToUnfollow (reqUser req) st))"

section \<open>Calls by an authenticated user\<close>

text \<open>
  Modelled from the spec: the authentication middleware that fills \<open>req.user\<close> is not
  among the sources. Following the spec (sections 6 and 9), the actor is resolved before
  a handler runs: the request carries the actor's id and the User document the store
  holds for it at that moment, and a request whose actor does not resolve reaches no
  handler (\<open>None\<close>). The second argument of the calls below is the string the client
  sends in the request body.
\<close>

definition authenticate :: "store \<Rightarrow> oid \<Rightarrow> body \<Rightarrow> request option" where
  "authenticate st a b =
     (case users st a of
        None \<Rightarrow> None
      | Some u \<Rightarrow> Some \<lparr>reqUserId = a, reqUser = u, body = b\<rparr>)"

definition emptyBody :: body where
  "emptyBody = \<lparr>resourceId = None, userIdToFollow = None, userIdToUnfollow = None\<rparr>"

definition follow :: "faults \<Rightarrow> oid \<Rightarrow> string \<Rightarrow> store \<Rightarrow> (response \<times> store) option" where
  "follow f a b st =
     map_option (\<lambda>req. followUser f req st)
       (authenticate st a (emptyBody\<lparr>userIdToFollow := Some b\<rparr>))"

definition unfollow :: "faults \<Rightarrow> oid \<Rightarrow> string \<Rightarrow> store \<Rightarrow> (response \<times> store) option" where
  "unfollow f a b st =
     map_option (\<lambda>req. unfollowUser f req st)
       (authenticate st a (emptyBody\<lparr>userIdToUnfollow := Some b\<rparr>))"

definition bookmark :: "faults \<Rightarrow> oid \<Rightarrow> string option \<Rightarrow> store \<Rightarrow> (response \<times> store) option" where
  "bookmark f a r st =
     map_option (\<lambda>req. bookmarkResource f req st)
       (authenticate st a (emptyBody\<lparr>resourceId := r\<rparr>))"

definition unbookmark :: "faults \<Rightarrow> oid \<Rightarrow> string option \<Rightarrow> store \<Rightarrow> (response \<times> store) option" where
  "unbookmark f a r st =
     map_option (\<lambda>req. unbookmarkResource f req st)
       (authenticate st a (emptyBody\<lparr>resourceId := r\<rparr>))"

text \<open>The lists of a user in a store; a user that does not exist has none.\<close>

definition followedUsersOf :: "store \<Rightarrow> oid \<Rightarrow> oid list" where
  "followedUsersOf st a = (case users st a of None \<Rightarrow> [] | Some u \<Rightarrow> followedUsers u)"

definition followersOf :: "store \<Rightarrow> oid \<Rightarrow> oid list" where
  "followersOf st a = (case users st a of None \<Rightarrow> [] | Some u \<Rightarrow> followers u)"

definition bookmarksOf :: "store \<Rightarrow> oid \<Rightarrow> oid list" where
  "bookmarksOf st a = (case users st a of None \<Rightarrow> [] | Some u \<Rightarrow> bookmarkedResources u)"

text \<open>
  Two users with empty lists, the state of the spec's scenarios before any call, and the
  id of a resource. \<open>ALICE\<close>, \<open>BOB\<close> and \<open>BOOK\<close> are the same ids as a client may
  write them, with the letters in upper case.
\<close>

definition alice :: oid where
  "alice = ''5f1a00000000000000000001''"

definition bob :: oid where
  "bob = ''5f1b00000000000000000002''"

definition book :: oid where
  "book = ''5f1c00000000000000000003''"

definition ALICE :: string where
  "ALICE = ''5F1A00000000000000000001''"

definition BOB :: string where
  "BOB = ''5F1B00000000000000000002''"

definition BOOK :: string where
  "BOOK = ''5F1C00000000000000000003''"

definition newUser :: user where
  "newUser = \<lparr>followedUsers = [], followers = [], bookmarkedResources = []\<rparr>"

definition twoUsers :: store where
  "twoUsers =
     \<lparr>users = [alice \<mapsto> newUser, bob \<mapsto> newUser], topics = [], resourceDocs = [],
      votes = []\<rparr>"

section \<open>The topic controller\<close>

definition topicFindOne :: "faults \<Rightarrow> store \<Rightarrow> string \<Rightarrow> error + topic option" where
  "topicFindOne f st s =
     (if f TopicFindOne then Inl StoreUnavailable
      else Inr (find (\<lambda>t. slug t = s) (topics st)))"

text \<open>
  \<open>populate('resources')\<close> replaces the ids of the topic's list by the Resource
  documents they resolve to; an id that resolves to nothing leaves no entry.
\<close>

definition populate :: "store \<Rightarrow> topic \<Rightarrow> resourceDoc list" where
  "populate st t =
     List.map_filter (\<lambda>i. find (\<lambda>d. rid d = i) (resourceDocs st)) (resources t)"

definition voteFindOne :: "faults \<Rightarrow> store \<Rightarrow> oid \<Rightarrow> error + vote option" where
  "voteFindOne f st r =
     (if f (VoteFindOne r) then Inl StoreUnavailable
      else Inr (find (\<lambda>v. resource v = r) (votes st)))"

text \<open>
  Modelled from the spec: the Vote model is not among the sources. Following the spec
  (section 6), \<open>create\<close> carries a uniqueness constraint on \<open>Vote.resource\<close>: it
  reports a conflict when the collection already holds a Vote document of that resource,
  and otherwise appends the new document.
\<close>

definition voteCreate :: "faults \<Rightarrow> store \<Rightarrow> vote \<Rightarrow> error + vote \<times> store" where
  "voteCreate f st v =
     (if f (VoteCreate (resource v)) then Inl StoreUnavailable
      else if resource v \<in> resource ` set (votes st) then Inl ConflictOnCreate
      else Inr (v, st\<lparr>votes := votes st @ [v]\<rparr>))"

text \<open>
  The callback that \<open>getTopicBySlug\<close> maps over the topic's resources. It is suspended
  at \<open>await Vote.findOne\<close> and again at \<open>await Vote.create\<close>: \<open>seen\<close> is the store
  its \<open>findOne\<close> is answered from, \<open>st\<close> the store when it resumes and, having found
  nothing, creates. An error of either call is thrown out of the callback.
\<close>

definition withVotes ::
  "faults \<Rightarrow> store \<Rightarrow> resourceDoc \<Rightarrow> store \<Rightarrow> (error + resourceDoc \<times> nat \<times> nat) \<times> store" where
  "withVotes f seen res st =
     (case voteFindOne f seen (rid res) of
        Inl e \<Rightarrow> (Inl e, st)
      | Inr (Some vote) \<Rightarrow> (Inr (res, length (upvoters vote), length (downvoters vote)), st)
      | Inr None \<Rightarrow>
          (case voteCreate f st \<lparr>resource = rid res, upvoters = [], downvoters = []\<rparr> of
             Inl e \<Rightarrow> (Inl e, st)
           | Inr (vote, st1) \<Rightarrow>
               (Inr (res, length (upvoters vote), length (downvoters vote)), st1)))"

text \<open>
  \<open>Promise.all\<close> over the mapped callbacks. \<open>map\<close> starts every callback before any
  of them resumes, so every \<open>findOne\<close> is answered from the store as the request found
  it (\<open>seen\<close>). The callbacks then resume in the order of the list, each on the store the
  one before it left, and every callback runs to its end whether or not another one has
  thrown. \<open>awaitAll\<close> is the value \<open>Promise.all\<close> settles to: the list of results, or
  the first rejection.
\<close>

fun mapCallbacks ::
  "faults \<Rightarrow> store \<Rightarrow> resourceDoc list \<Rightarrow> store \<Rightarrow> (error + resourceDoc \<times> nat \<times> nat) list \<times> store"
  where
  "mapCallbacks f seen [] st = ([], st)"
| "mapCallbacks f seen (res # rest) st =
     (case withVotes f seen res st of
        (out, st1) \<Rightarrow>
          (case mapCallbacks f seen rest st1 of (outs, st2) \<Rightarrow> (out # outs, st2)))"

fun awaitAll :: "(error + 'a) list \<Rightarrow> error + 'a list" where
  "awaitAll [] = Inr []"
| "awaitAll (Inl e # outs) = Inl e"
| "awaitAll (Inr x # outs) = (case awaitAll outs of Inl e \<Rightarrow> Inl e | Inr xs \<Rightarrow> Inr (x # xs))"

text \<open>
  \<open>w\<close> is what other requests write to the store while the callbacks wait for their
  \<open>findOne\<close>; \<open>quiet\<close> is the run in which nobody else writes.
\<close>

type_synonym writers = "store \<Rightarrow> store"

definition quiet :: writers where
  "quiet = (\<lambda>st. st)"

definition getTopicBySlug :: "faults \<Rightarrow> writers \<Rightarrow> string \<Rightarrow> store \<Rightarrow> response \<times> store" where
  "getTopicBySlug f w s st =
     (case topicFindOne f st s of
        Inl e \<Rightarrow> (Response 500 (Message ''Server error while fetching topic''), st)
      | Inr None \<Rightarrow> (Response 404 (Message ''Topic not found''), st)
      | Inr (Some t) \<Rightarrow>
          (case mapCallbacks f st (populate st t) (w st) of
             (outs, st1) \<Rightarrow>
               (case awaitAll outs of
                  Inl e \<Rightarrow> (Response 500 (Message ''Server error while fetching topic''), st1)
                | Inr resourcesWithVotes \<Rightarrow>
                    (Response 200 (TopicJson t resourcesWithVotes), st1))))"

section \<open>Properties of a store, and the stores of the scenarios\<close>

text \<open>
  The follow relation is stored on both sides: among the users of the store, \<open>a\<close> is a
  follower of \<open>b\<close> exactly when \<open>b\<close> is among the users \<open>a\<close> follows.
\<close>

definition followConsistent :: "store \<Rightarrow> bool" where
  "followConsistent st =
     (\<forall>a \<in> dom (users st). \<forall>b \<in> dom (users st).
        (a \<in> set (followersOf st b)) = (b \<in> set (followedUsersOf st a)))"

text \<open>The Vote documents of a resource, and the counts the spec's \<open>tally\<close> derives.\<close>

definition votesFor :: "store \<Rightarrow> oid \<Rightarrow> vote list" where
  "votesFor st r = filter (\<lambda>v. resource v = r) (votes st)"

definition tally :: "store \<Rightarrow> oid \<Rightarrow> nat \<times> nat" where
  "tally st r =
     (case votesFor st r of
        [] \<Rightarrow> (0, 0)
      | v # vs \<Rightarrow> (length (upvoters v), length (downvoters v)))"

definition emptyVote :: "oid \<Rightarrow> vote" where
  "emptyVote r = \<lparr>resource = r, upvoters = [], downvoters = []\<rparr>"

text \<open>The store in which only the call site \<open>s\<close> throws.\<close>

definition onlyFault :: "site \<Rightarrow> faults" where
  "onlyFault s = (\<lambda>s'. s' = s)"

text \<open>
  Alice follows Bob on her own side only (\<open>oneSided\<close>), and on both sides
  (\<open>following\<close>).
\<close>

definition oneSided :: store where
  "oneSided = writeUser twoUsers alice (newUser\<lparr>followedUsers := [bob]\<rparr>)"

definition following :: store where
  "following = writeUser oneSided bob (newUser\<lparr>followers := [alice]\<rparr>)"

text \<open>
  A topic with two resources: \<open>r1\<close> has no Vote document yet, \<open>r2\<close> has one with
  two upvoters and one downvoter.
\<close>

definition logicTopic :: topic where
  "logicTopic =
     \<lparr>name = ''Logic'', slug = ''logic'', description = '''', resources = [''r1'', ''r2'']\<rparr>"

definition resource1 :: resourceDoc where
  "resource1 = \<lparr>rid = ''r1'', url = ''http://example.org/1''\<rparr>"

definition resource2 :: resourceDoc where
  "resource2 = \<lparr>rid = ''r2'', url = ''http://example.org/2''\<rparr>"

definition oneTopic :: store where
  "oneTopic =
     \<lparr>users = Map.empty, topics = [logicTopic], resourceDocs = [resource1, resource2],
      votes = [\<lparr>resource = ''r2'', upvoters = [''1'', ''2''], downvoters = [''3'']\<rparr>]\<rparr>"

text \<open>
  Another request casts the first vote on resource \<open>r1\<close> and so creates its Vote
  document.
\<close>

definition firstVote :: writers where
  "firstVote =
     (\<lambda>st. st\<lparr>votes := votes st @ [\<lparr>resource = ''r1'', upvoters = [''1''], downvoters = []\<rparr>]\<rparr>)"

section \<open>Rejections before any store access\<close>

text \<open>
  C10. A bookmark or unbookmark request whose \<open>resourceId\<close> is missing or empty is
  answered 400 "Resource ID is required", whatever the store holds and whichever of its
  calls would throw, and the store is returned as it was.
\<close>

theorem missing_resourceId_rejected:
  "bookmarkResource f (req\<lparr>body := b\<lparr>resourceId := None\<rparr>\<rparr>) st =
     (Response 400 (Message ''Resource ID is required''), st) \<and>
   bookmarkResource f (req\<lparr>body := b\<lparr>resourceId := Some ''''\<rparr>\<rparr>) st =
     (Response 400 (Message ''Resource ID is required''), st) \<and>
   unbookmarkResource f (req\<lparr>body := b\<lparr>resourceId := None\<rparr>\<rparr>) st =
     (Response 400 (Message ''Resource ID is required''), st) \<and>
   unbookmarkResource f (req\<lparr>body := b\<lparr>resourceId := Some ''''\<rparr>\<rparr>) st =
     (Response 400 (Message ''Resource ID is required''), st)"
  by (simp add: bookmarkResource_def unbookmarkResource_def)

section \<open>Ids and the strings of a request\<close>

lemma lower_hex_char:
  "c \<in> set ''0123456789abcdef'' \<Longrightarrow> isHex c \<and> toLowerHex c = c"
  by (auto simp: isHex_def toLowerHex_def)

lemma lower_hex_string:
  "list_all (\<lambda>c. c \<in> set ''0123456789abcdef'') s \<Longrightarrow> list_all isHex s \<and> map toLowerHex s = s"
  by (induction s) (simp_all add: lower_hex_char)

text \<open>The string form of an id casts to that id.\<close>

lemma castObjectId_canonical: "isObjectId s \<Longrightarrow> castObjectId s = Some s"
  using lower_hex_string [of s] by (simp add: isObjectId_def castObjectId_def)

lemma castObjectId_length: "castObjectId s = Some i \<Longrightarrow> length s = 24"
  by (simp add: castObjectId_def split: if_splits)

lemma scenario_ids:
  "isObjectId alice" "isObjectId bob" "isObjectId book"
  by (simp_all add: isObjectId_def alice_def bob_def book_def)

lemma scenario_casts:
  "castObjectId ALICE = Some alice" "castObjectId BOB = Some bob"
  "castObjectId BOOK = Some book" "castObjectId ''3'' = None"
  by (simp_all add: castObjectId_def isHex_def toLowerHex_def alice_def bob_def book_def
      ALICE_def BOB_def BOOK_def)

lemma scenario_distinct:
  "alice \<noteq> bob" "bob \<noteq> alice" "ALICE \<noteq> alice" "BOB \<noteq> bob" "BOB \<noteq> alice" "BOOK \<noteq> book"
  "ALICE \<noteq> ''''" "BOB \<noteq> ''''" "BOOK \<noteq> ''''" "alice \<noteq> ''''" "bob \<noteq> ''''" "book \<noteq> ''''"
  "''3'' \<noteq> alice"
  by (simp_all add: alice_def bob_def book_def ALICE_def BOB_def BOOK_def)

section \<open>Reading and writing user documents\<close>

lemma users_writeUser: "users (writeUser st i d) x = (if x = i then Some d else users st x)"
  by (simp add: writeUser_def)

lemma dom_writeUser: "dom (users (writeUser st i d)) = insert i (dom (users st))"
  by (simp add: writeUser_def)

lemma followedUsersOf_writeUser:
  "followedUsersOf (writeUser st i d) x =
     (if x = i then followedUsers d else followedUsersOf st x)"
  by (simp add: followedUsersOf_def users_writeUser)

lemma followersOf_writeUser:
  "followersOf (writeUser st i d) x = (if x = i then followers d else followersOf st x)"
  by (simp add: followersOf_def users_writeUser)

lemma bookmarksOf_writeUser:
  "bookmarksOf (writeUser st i d) x =
     (if x = i then bookmarkedResources d else bookmarksOf st x)"
  by (simp add: bookmarksOf_def users_writeUser)

lemma followedUsersOf_Some: "users st a = Some u \<Longrightarrow> followedUsersOf st a = followedUsers u"
  by (simp add: followedUsersOf_def)

lemma followersOf_Some: "users st a = Some u \<Longrightarrow> followersOf st a = followers u"
  by (simp add: followersOf_def)

lemma bookmarksOf_Some: "users st a = Some u \<Longrightarrow> bookmarksOf st a = bookmarkedResources u"
  by (simp add: bookmarksOf_def)

lemma writeUser_same: "users st a = Some u \<Longrightarrow> writeUser st a u = st"
  by (simp add: writeUser_def fun_upd_idem)

lemma writeUser_twice: "writeUser (writeUser st a u) a v = writeUser st a v"
  by (simp add: writeUser_def)

lemma writeUser_swap:
  "a \<noteq> b \<Longrightarrow> writeUser (writeUser st a u) b v = writeUser (writeUser st b v) a u"
  by (simp add: writeUser_def fun_upd_twist)

lemma filter_absent: "x \<notin> set xs \<Longrightarrow> filter (\<lambda>i. i \<noteq> x) xs = xs"
  by (induction xs) auto

lemma user_unchanged:
  "u\<lparr>followedUsers := followedUsers u\<rparr> = u" "u\<lparr>followers := followers u\<rparr> = u"
  "u\<lparr>bookmarkedResources := bookmarkedResources u\<rparr> = u"
  by simp_all

lemma copyPath_own:
  "copyPath FollowedUsers (u\<lparr>followedUsers := xs\<rparr>) u = u\<lparr>followedUsers := xs\<rparr>"
  "copyPath Followers (u\<lparr>followers := xs\<rparr>) u = u\<lparr>followers := xs\<rparr>"
  "copyPath BookmarkedResources (u\<lparr>bookmarkedResources := xs\<rparr>) u =
     u\<lparr>bookmarkedResources := xs\<rparr>"
  by simp_all

lemma findById_Str:
  "\<not> f UserFindById \<Longrightarrow> castObjectId t = Some i \<Longrightarrow>
   findById f st (Str t) = Inr (map_option (Pair i) (users st i))"
  by (simp add: findById_def)

lemma findById_Oid:
  "\<not> f UserFindById \<Longrightarrow> findById f st (Oid i) = Inr (map_option (Pair i) (users st i))"
  by (simp add: findById_def)

lemma includesId_simps:
  "includesId xs (Str s) = (s \<in> set xs)" "includesId xs (Oid i) = (i \<in> set xs)"
  by (simp_all add: includesId_def)

lemma push_Str: "castObjectId t = Some i \<Longrightarrow> push xs (Str t) = Inr (xs @ [i])"
  by (simp add: push_def)

lemma push_Oid: "push xs (Oid i) = Inr (xs @ [i])"
  by (simp add: push_def)

lemma save_stored:
  "\<not> f s \<Longrightarrow> users st i = Some stored \<Longrightarrow>
   save f s st i p doc = Inr (writeUser st i (copyPath p doc stored))"
  by (simp add: save_def)

lemma noFault_never: "\<not> noFault x"
  by (simp add: noFault_def)

lemma newUser_fields:
  "followedUsers newUser = []" "followers newUser = []" "bookmarkedResources newUser = []"
  by (simp_all add: newUser_def)

lemma twoUsers_users:
  "users twoUsers alice = Some newUser" "users twoUsers bob = Some newUser"
  by (simp_all add: twoUsers_def scenario_distinct)

lemma oneSided_users:
  "users oneSided alice = Some (newUser\<lparr>followedUsers := [bob]\<rparr>)"
  "users oneSided bob = Some newUser"
  by (simp_all add: oneSided_def twoUsers_users users_writeUser scenario_distinct)

lemma following_users:
  "users following alice = Some (newUser\<lparr>followedUsers := [bob]\<rparr>)"
  "users following bob = Some (newUser\<lparr>followers := [alice]\<rparr>)"
  by (simp_all add: following_def oneSided_users users_writeUser scenario_distinct)

lemmas call_defs = follow_def unfollow_def bookmark_def unbookmark_def authenticate_def
  emptyBody_def

lemmas handler_defs = followUser_def followUser_target_def unfollowUser_def
  unfollowUser_target_def bookmarkResource_def unbookmarkResource_def

lemmas driver_simps = findById_Str findById_Oid includesId_simps push_Str push_Oid save_stored
  noFault_never copyPath_own

lemmas user_reads = users_writeUser dom_writeUser followedUsersOf_writeUser
  followersOf_writeUser bookmarksOf_writeUser followedUsersOf_Some followersOf_Some
  bookmarksOf_Some

section \<open>Following an id that resolves to no user\<close>

text \<open>
  C5, as the code has it. The caller is an existing user. When the target string is a
  well-formed id (24 hexadecimal digits) that resolves to no User document and
  \<open>findById\<close> answers, the call is answered 404 "User to follow not found". When the
  target string is not empty, not 12 characters long and cannot be cast to an id, the
  call is answered 500 "Server error while following user". In both cases the store,
  and with it the caller's \<open>followedUsers\<close>, is as it was.
\<close>

theorem follow_unknown_target:
  assumes "users st a = Some u" and "isObjectId a"
  shows "(castObjectId t = Some i \<and> users st i = None \<and> \<not> f UserFindById \<longrightarrow>
            follow f a t st =
              Some (Response 404 (Message ''User to follow not found''), st)) \<and>
         (castObjectId t = None \<and> t \<noteq> '''' \<and> length t \<noteq> 12 \<longrightarrow>
            follow f a t st =
              Some (Response 500 (Message ''Server error while following user''), st))"
proof (intro conjI impI; (elim conjE)?)
  assume c: "castObjectId t = Some i" and n: "users st i = None" and f: "\<not> f UserFindById"
  from c n assms have "t \<noteq> a"
    by (auto simp: castObjectId_canonical)
  moreover from c have "t \<noteq> ''''"
    by (auto dest: castObjectId_length)
  ultimately show "follow f a t st =
      Some (Response 404 (Message ''User to follow not found''), st)"
    using assms(1) n f c by (simp add: call_defs followUser_def findById_Str)
next
  assume c: "castObjectId t = None" and "t \<noteq> ''''"
  moreover from c assms(2) have "t \<noteq> a"
    by (auto simp: castObjectId_canonical)
  ultimately show "follow f a t st =
      Some (Response 500 (Message ''Server error while following user''), st)"
    using assms(1) by (simp add: call_defs followUser_def findById_def)
qed

theorem follow_unknown_target_witness:
  "users twoUsers alice = Some newUser \<and> isObjectId alice \<and>
   castObjectId book = Some book \<and> users twoUsers book = None \<and> \<not> noFault UserFindById \<and>
   follow noFault alice book twoUsers =
     Some (Response 404 (Message ''User to follow not found''), twoUsers) \<and>
   castObjectId ''3'' = None \<and> ''3'' \<noteq> '''' \<and> length ''3'' \<noteq> 12 \<and>
   follow noFault alice ''3'' twoUsers =
     Some (Response 500 (Message ''Server error while following user''), twoUsers)"
proof -
  have n: "users twoUsers book = None"
    by (simp add: twoUsers_def alice_def bob_def book_def)
  show ?thesis
    using follow_unknown_target [OF twoUsers_users(1) scenario_ids(1), of book book noFault]
      follow_unknown_target [OF twoUsers_users(1) scenario_ids(1), of "''3''" book noFault]
    by (simp add: n twoUsers_users castObjectId_canonical scenario_ids scenario_casts
        noFault_never)
qed

text \<open>
  C5, as the spec states it, fails for a target string that is no well-formed id:
  \<open>findById\<close> throws on the cast and the call is answered 500, not 404.
\<close>

theorem follow_malformed_target_counterexample:
  "users twoUsers ''3'' = None \<and>
   follow noFault alice ''3'' twoUsers =
     Some (Response 500 (Message ''Server error while following user''), twoUsers)"
proof -
  have "users twoUsers ''3'' = None"
    by (simp add: twoUsers_def alice_def bob_def)
  then show ?thesis
    by (simp add: call_defs followUser_def findById_def twoUsers_users scenario_casts
        scenario_distinct noFault_never)
qed

section \<open>Following one's own id\<close>

text \<open>
  The guard of \<open>followUser\<close> compares the string of the request body with the string
  form of the caller's id. A body that holds exactly that string is answered 400 "You
  cannot follow yourself", whichever store calls would throw, with the store as it was.
\<close>

lemma self_follow_same_string:
  assumes "users st a = Some u" and "a \<noteq> ''''"
  shows "follow f a a st = Some (Response 400 (Message ''You cannot follow yourself''), st)"
  using assms by (simp add: call_defs followUser_def)

text \<open>
  C3 fails on the code. Alice sends her own id with the letters in upper case: the
  string differs from the string form of her id, so the guard lets it pass;
  \<open>findById\<close> casts it and returns her own document; both lists are pushed to and
  saved. The call is answered 200 and Alice follows herself.
\<close>

theorem self_follow_case_variant:
  "castObjectId ALICE = Some alice \<and>
   follow noFault alice ALICE twoUsers =
     Some (Response 200 (FollowLists [alice] [alice]),
           writeUser twoUsers alice (newUser\<lparr>followedUsers := [alice], followers := [alice]\<rparr>)) \<and>
   followedUsersOf
     (writeUser twoUsers alice (newUser\<lparr>followedUsers := [alice], followers := [alice]\<rparr>))
     alice = [alice] \<and>
   followersOf
     (writeUser twoUsers alice (newUser\<lparr>followedUsers := [alice], followers := [alice]\<rparr>))
     alice = [alice]"
  by (simp add: call_defs handler_defs driver_simps scenario_casts scenario_distinct
      twoUsers_users newUser_fields user_reads writeUser_twice)

section \<open>What a follow and an unfollow change\<close>

text \<open>
  The two calls for a target that the request names by the string form of its id, on a
  store that answers every call.
\<close>

lemma follow_result:
  assumes "a \<noteq> b" and "isObjectId b" and "users st a = Some ua" and "users st b = Some ub"
  shows "follow noFault a b st =
     Some (Response 200
             (FollowLists
                (if b \<in> set (followedUsers ua) then followedUsers ua else followedUsers ua @ [b])
                (if a \<in> set (followers ub) then followers ub else followers ub @ [a])),
           writeUser
             (writeUser st a
                (ua\<lparr>followedUsers :=
                      if b \<in> set (followedUsers ua) then followedUsers ua
                      else followedUsers ua @ [b]\<rparr>))
             b
             (ub\<lparr>followers :=
                   if a \<in> set (followers ub) then followers ub else followers ub @ [a]\<rparr>))"
proof -
  have c: "castObjectId b = Some b" and e: "b \<noteq> ''''"
    using assms(2) by (auto simp: castObjectId_canonical isObjectId_def)
  show ?thesis
    using assms(1,3,4) e
    by (auto simp: call_defs handler_defs driver_simps c users_writeUser writeUser_same)
qed

lemma unfollow_result:
  assumes "a \<noteq> b" and "isObjectId b" and "users st a = Some ua" and "users st b = Some ub"
  shows "unfollow noFault a b st =
     Some (Response 200
             (FollowLists (filter (\<lambda>i. i \<noteq> b) (followedUsers ua))
                (filter (\<lambda>i. i \<noteq> a) (followers ub))),
           writeUser
             (writeUser st a (ua\<lparr>followedUsers := filter (\<lambda>i. i \<noteq> b) (followedUsers ua)\<rparr>))
             b (ub\<lparr>followers := filter (\<lambda>i. i \<noteq> a) (followers ub)\<rparr>))"
proof -
  have c: "castObjectId b = Some b" and e: "b \<noteq> ''''"
    using assms(2) by (auto simp: castObjectId_canonical isObjectId_def)
  show ?thesis
    using assms(1,3,4) e
    by (auto simp: call_defs handler_defs driver_simps c users_writeUser writeUser_same
        filter_absent)
qed

section \<open>Following twice\<close>

text \<open>
  When both requests name the target by the string form of its id, the second call is
  answered as the first and returns the store the first call left.
\<close>

lemma follow_twice_same_string:
  assumes "a \<noteq> b" and "isObjectId b" and "users st a = Some ua" and "users st b = Some ub"
    and "follow noFault a b st = Some (r1, st1)"
  shows "follow noFault a b st1 = Some (r1, st1) \<and> status r1 = 200"
proof -
  let ?ua = "ua\<lparr>followedUsers :=
                   if b \<in> set (followedUsers ua) then followedUsers ua
                   else followedUsers ua @ [b]\<rparr>"
  let ?ub = "ub\<lparr>followers :=
                   if a \<in> set (followers ub) then followers ub else followers ub @ [a]\<rparr>"
  from assms(5)
  have r1: "r1 = Response 200 (FollowLists (followedUsers ?ua) (followers ?ub))"
    and st1: "st1 = writeUser (writeUser st a ?ua) b ?ub"
    by (auto simp: follow_result [OF assms(1-4)])
  have a1: "users st1 a = Some ?ua" and b1: "users st1 b = Some ?ub"
    using assms(1) by (simp_all add: st1 users_writeUser)
  have la: "(if b \<in> set (followedUsers ?ua) then followedUsers ?ua
             else followedUsers ?ua @ [b]) = followedUsers ?ua"
    and lb: "(if a \<in> set (followers ?ub) then followers ?ub
              else followers ?ub @ [a]) = followers ?ub"
    by simp_all
  have "follow noFault a b st1 = Some (r1, st1)"
    by (simp only: follow_result [OF assms(1,2) a1 b1] la lb user_unchanged
        writeUser_same [OF a1] writeUser_same [OF b1] r1)
  then show ?thesis using r1 by simp
qed

text \<open>
  C2 fails on the code. Alice follows Bob twice and writes his id with the letters in
  upper case. \<open>findById\<close> casts the string and finds Bob both times. In the second
  call \<open>includes\<close> compares the upper-case string with the stored id, misses it, and
  \<open>push\<close> casts the string and appends Bob's id again: the second call changes the
  store and \<open>followedUsers\<close> of Alice holds Bob twice.
\<close>

theorem follow_twice_case_variant:
  "castObjectId BOB = Some bob \<and>
   follow noFault alice BOB twoUsers =
     Some (Response 200 (FollowLists [bob] [alice]), following) \<and>
   follow noFault alice BOB following =
     Some (Response 200 (FollowLists [bob, bob] [alice]),
           writeUser following alice (newUser\<lparr>followedUsers := [bob, bob]\<rparr>)) \<and>
   followedUsersOf following alice = [bob] \<and>
   followedUsersOf (writeUser following alice (newUser\<lparr>followedUsers := [bob, bob]\<rparr>)) alice =
     [bob, bob]"
proof -
  have 1: "follow noFault alice BOB twoUsers =
             Some (Response 200 (FollowLists [bob] [alice]), following)"
    by (simp add: call_defs handler_defs driver_simps scenario_casts scenario_distinct
        twoUsers_users newUser_fields users_writeUser following_def oneSided_def)
  have 2: "follow noFault alice BOB following =
     Some (Response 200 (FollowLists [bob, bob] [alice]),
           writeUser following alice (newUser\<lparr>followedUsers := [bob, bob]\<rparr>))"
    by (simp add: call_defs handler_defs driver_simps scenario_casts scenario_distinct
        following_users newUser_fields users_writeUser)
  show ?thesis
    using 1 2
    by (simp add: scenario_casts followedUsersOf_Some [OF following_users(1)]
        followedUsersOf_writeUser)
qed

section \<open>Retrying a follow that was applied on one side\<close>

text \<open>
  When the retry names the target by the string form of its id, it completes the
  followed user's side and leaves the caller's side as it was.
\<close>

lemma follow_retry_same_string:
  assumes "a \<noteq> b" and "isObjectId b" and "users st a = Some ua" and "users st b = Some ub"
    and "b \<in> set (followedUsers ua)" and "a \<notin> set (followers ub)"
    and "follow noFault a b st = Some (r, st')"
  shows "status r = 200 \<and> followedUsersOf st' a = followedUsers ua \<and>
         followersOf st' b = followers ub @ [a]"
  using assms(7) assms(1,5,6)
  by (auto simp: follow_result [OF assms(1-4)] user_reads)

text \<open>
  C9 fails on the code. Bob is in \<open>followedUsers\<close> of Alice and Alice is not yet in
  \<open>followers\<close> of Bob. Alice retries and writes Bob's id with the letters in upper
  case: the call is answered 200 and completes Bob's side, and it appends Bob's id to
  Alice's side a second time.
\<close>

theorem follow_retry_case_variant:
  "castObjectId BOB = Some bob \<and>
   followedUsersOf oneSided alice = [bob] \<and> followersOf oneSided bob = [] \<and>
   follow noFault alice BOB oneSided =
     Some (Response 200 (FollowLists [bob, bob] [alice]),
           writeUser (writeUser oneSided alice (newUser\<lparr>followedUsers := [bob, bob]\<rparr>)) bob
             (newUser\<lparr>followers := [alice]\<rparr>)) \<and>
   followedUsersOf
     (writeUser (writeUser oneSided alice (newUser\<lparr>followedUsers := [bob, bob]\<rparr>)) bob
        (newUser\<lparr>followers := [alice]\<rparr>))
     alice = [bob, bob] \<and>
   count_list [bob, bob] bob = 2"
proof -
  have "follow noFault alice BOB oneSided =
     Some (Response 200 (FollowLists [bob, bob] [alice]),
           writeUser (writeUser oneSided alice (newUser\<lparr>followedUsers := [bob, bob]\<rparr>)) bob
             (newUser\<lparr>followers := [alice]\<rparr>))"
    by (simp add: call_defs handler_defs driver_simps scenario_casts scenario_distinct
        oneSided_users newUser_fields users_writeUser)
  then show ?thesis
    by (simp add: scenario_casts scenario_distinct followedUsersOf_Some [OF oneSided_users(1)]
        followersOf_Some [OF oneSided_users(2)] newUser_fields followedUsersOf_writeUser)
qed

section \<open>Following and then unfollowing\<close>

lemma writeUser_restore:
  assumes "a \<noteq> b" and "users st a = Some ua" and "users st b = Some ub"
  shows "writeUser (writeUser (writeUser (writeUser st a x) b y) a ua) b ub = st"
proof -
  have "writeUser (writeUser (writeUser (writeUser st a x) b y) a ua) b ub =
        writeUser (writeUser st a ua) b ub"
    using assms(1) by (simp add: writeUser_swap [of b a] writeUser_twice)
  also have "\<dots> = st"
    using assms by (simp add: writeUser_same users_writeUser)
  finally show ?thesis .
qed

text \<open>
  C4, as the code has it. For distinct existing users \<open>a\<close> and \<open>b\<close>, both requests
  naming \<open>b\<close> by the string form of its id, in a store that answers every call and in
  which \<open>a\<close> does not follow \<open>b\<close> yet (\<open>b\<close> is not in \<open>followedUsers(a)\<close> and \<open>a\<close>
  is not in \<open>followers(b)\<close>), \<open>unfollowUser(a,b)\<close> after \<open>followUser(a,b)\<close> is
  answered 200 with the two lists of before the follow and returns exactly the store of
  before the follow.
\<close>

theorem follow_unfollow_restores:
  assumes "a \<noteq> b" and "isObjectId b" and "users st a = Some ua" and "users st b = Some ub"
    and "b \<notin> set (followedUsers ua)" and "a \<notin> set (followers ub)"
    and "follow noFault a b st = Some (r1, st1)"
  shows "unfollow noFault a b st1 =
           Some (Response 200 (FollowLists (followedUsers ua) (followers ub)), st)"
proof -
  let ?ua = "ua\<lparr>followedUsers := followedUsers ua @ [b]\<rparr>"
  let ?ub = "ub\<lparr>followers := followers ub @ [a]\<rparr>"
  from assms(5-7) have st1: "st1 = writeUser (writeUser st a ?ua) b ?ub"
    by (auto simp: follow_result [OF assms(1-4)])
  have a1: "users st1 a = Some ?ua" and b1: "users st1 b = Some ?ub"
    using assms(1) by (simp_all add: st1 users_writeUser)
  have "unfollow noFault a b st1 =
          Some (Response 200 (FollowLists (followedUsers ua) (followers ub)),
                writeUser (writeUser st1 a ua) b ub)"
    using assms(5,6) by (simp add: unfollow_result [OF assms(1,2) a1 b1] filter_absent)
  then show ?thesis
    by (simp add: st1 writeUser_restore [OF assms(1,3,4)])
qed

theorem follow_unfollow_restores_witness:
  "alice \<noteq> bob \<and> isObjectId bob \<and> users twoUsers alice = Some newUser \<and>
   users twoUsers bob = Some newUser \<and> bob \<notin> set (followedUsers newUser) \<and>
   alice \<notin> set (followers newUser) \<and>
   follow noFault alice bob twoUsers =
     Some (Response 200 (FollowLists [bob] [alice]), following) \<and>
   unfollow noFault alice bob following = Some (Response 200 (FollowLists [] []), twoUsers)"
proof -
  note u = twoUsers_users
  note d = scenario_distinct(1) scenario_ids(2)
  have f: "follow noFault alice bob twoUsers =
             Some (Response 200 (FollowLists [bob] [alice]), following)"
    by (simp add: follow_result [OF d u] following_def oneSided_def newUser_fields)
  show ?thesis
    using follow_unfollow_restores [OF d u _ _ f] u f d by (simp add: newUser_fields)
qed

text \<open>
  C4, as the spec states it, fails where \<open>a\<close> follows \<open>b\<close> already: the follow changes
  nothing, the unfollow removes the edge, and the two lists that held one id are empty.
\<close>

theorem follow_unfollow_counterexample:
  "follow noFault alice bob following =
     Some (Response 200 (FollowLists [bob] [alice]), following) \<and>
   unfollow noFault alice bob following = Some (Response 200 (FollowLists [] []), twoUsers) \<and>
   followedUsersOf following alice = [bob] \<and> followedUsersOf twoUsers alice = [] \<and>
   followersOf following bob = [alice] \<and> followersOf twoUsers bob = [] \<and>
   twoUsers \<noteq> following"
proof -
  note u = following_users
  note d = scenario_distinct(1) scenario_ids(2)
  have f: "follow noFault alice bob following =
             Some (Response 200 (FollowLists [bob] [alice]), following)"
    by (simp add: follow_result [OF d u] writeUser_same [OF u(1)] writeUser_same [OF u(2)])
  have "unfollow noFault alice bob following =
          Some (Response 200 (FollowLists [] []),
                writeUser (writeUser following alice newUser) bob newUser)"
    using d(1) by (simp add: unfollow_result [OF d u] newUser_def)
  then have g: "unfollow noFault alice bob following =
                  Some (Response 200 (FollowLists [] []), twoUsers)"
    by (simp add: following_def oneSided_def
        writeUser_restore [OF d(1) twoUsers_users])
  have l: "followedUsersOf following alice = [bob]" "followedUsersOf twoUsers alice = []"
    "followersOf following bob = [alice]" "followersOf twoUsers bob = []"
    by (simp_all add: followedUsersOf_Some [OF u(1)] followersOf_Some [OF u(2)]
        followedUsersOf_Some [OF twoUsers_users(1)] followersOf_Some [OF twoUsers_users(2)]
        newUser_fields)
  have "twoUsers \<noteq> following"
  proof
    assume "twoUsers = following"
    then have "followedUsersOf twoUsers alice = followedUsersOf following alice" by simp
    with l show False by simp
  qed
  with f g l show ?thesis by simp
qed

section \<open>The two sides of the follow relation\<close>

text \<open>
  The outcomes of a \<open>followUser\<close> call whose request names the target by the string
  form of its id: the store is as it was and the answer is not 200; or the answer is 200
  and both sides hold the edge; or the save of the followed user threw after the caller
  was saved, the answer is 500 and only the caller's side holds the edge.
\<close>

lemma follow_outcomes:
  assumes "follow f a b st = Some (r, st')" and "isObjectId b"
  shows "(st' = st \<and> status r \<noteq> 200) \<or>
         (status r = 200 \<and> a \<noteq> b \<and> a \<in> dom (users st) \<and> b \<in> dom (users st) \<and>
          dom (users st') = dom (users st) \<and>
          (\<forall>x. set (followedUsersOf st' x) =
             (if x = a then insert b (set (followedUsersOf st x))
              else set (followedUsersOf st x))) \<and>
          (\<forall>x. set (followersOf st' x) =
             (if x = b then insert a (set (followersOf st x))
              else set (followersOf st x)))) \<or>
         (status r = 500 \<and> f UserSave \<and> b \<in> set (followedUsersOf st' a) \<and>
          a \<notin> set (followersOf st' b))"
proof -
  have c: "castObjectId b = Some b"
    using assms(2) by (rule castObjectId_canonical)
  show ?thesis
  proof (cases "users st a")
    case None
    with assms show ?thesis by (simp add: call_defs)
  next
    case (Some ua)
    show ?thesis
    proof (cases "f UserFindById \<or> b = a")
      case True
      with Some assms(1) show ?thesis
        by (auto simp: call_defs followUser_def findById_def split: if_splits)
    next
      case False
      then have nf: "\<not> f UserFindById" and ne: "b \<noteq> a" by simp_all
      show ?thesis
      proof (cases "users st b")
        case None
        with \<open>users st a = Some ua\<close> assms(1) nf show ?thesis
          by (auto simp: call_defs followUser_def findById_Str [where f = f, OF nf c] split: if_splits)
      next
        case (Some ub)
        with \<open>users st a = Some ua\<close> assms(1) nf ne show ?thesis
          by (auto simp: call_defs handler_defs findById_Str [where f = f, OF nf c] includesId_simps
              push_Str [OF c] push_Oid save_def copyPath_own user_reads
              split: if_splits)
      qed
    qed
  qed
qed

lemma unfollow_outcomes:
  assumes "unfollow f a b st = Some (r, st')" and "isObjectId b"
  shows "(st' = st \<and> status r \<noteq> 200) \<or>
         (status r = 200 \<and> a \<noteq> b \<and> a \<in> dom (users st) \<and> b \<in> dom (users st) \<and>
          dom (users st') = dom (users st) \<and>
          (\<forall>x. set (followedUsersOf st' x) =
             (if x = a then set (followedUsersOf st x) - {b}
              else set (followedUsersOf st x))) \<and>
          (\<forall>x. set (followersOf st' x) =
             (if x = b then set (followersOf st x) - {a}
              else set (followersOf st x)))) \<or>
         (status r = 500 \<and> f UserSave \<and> b \<notin> set (followedUsersOf st' a) \<and>
          a \<in> set (followersOf st' b))"
proof -
  have c: "castObjectId b = Some b"
    using assms(2) by (rule castObjectId_canonical)
  show ?thesis
  proof (cases "users st a")
    case None
    with assms show ?thesis by (simp add: call_defs)
  next
    case (Some ua)
    show ?thesis
    proof (cases "f UserFindById \<or> b = a")
      case True
      with Some assms(1) show ?thesis
        by (auto simp: call_defs unfollowUser_def findById_def split: if_splits)
    next
      case False
      then have nf: "\<not> f UserFindById" and ne: "b \<noteq> a" by simp_all
      show ?thesis
      proof (cases "users st b")
        case None
        with \<open>users st a = Some ua\<close> assms(1) nf show ?thesis
          by (auto simp: call_defs unfollowUser_def findById_Str [where f = f, OF nf c] split: if_splits)
      next
        case (Some ub)
        with \<open>users st a = Some ua\<close> assms(1) nf ne show ?thesis
          by (auto simp: call_defs handler_defs findById_Str [where f = f, OF nf c] includesId_simps
              save_def copyPath_own user_reads split: if_splits)
      qed
    qed
  qed
qed

lemma twoUsers_consistent: "followConsistent twoUsers"
  by (simp add: followConsistent_def followedUsersOf_def followersOf_def twoUsers_def
      newUser_def)

lemma oneSided_lists:
  "followedUsersOf oneSided alice = [bob]" "followersOf oneSided bob = []"
  by (simp_all add: followedUsersOf_Some [OF oneSided_users(1)]
      followersOf_Some [OF oneSided_users(2)] newUser_fields)

text \<open>
  C1, as the code has it. Take a \<open>followUser\<close> or \<open>unfollowUser\<close> call whose request
  names the target by the string form of its id, on a store in which the two sides of
  the follow relation agree for every pair of existing users. Either they agree after the
  call as well, or the call is answered 500 because the save of the target's document
  threw, and then only the caller's side has changed: after \<open>followUser(a,b)\<close>, \<open>b\<close> is
  in \<open>followedUsers(a)\<close> and \<open>a\<close> is not in \<open>followers(b)\<close>; after
  \<open>unfollowUser(c,d)\<close>, \<open>d\<close> is not in \<open>followedUsers(c)\<close> and \<open>c\<close> is still in
  \<open>followers(d)\<close>. After a \<open>followUser(a,b)\<close> answered 200 both memberships hold, and
  after an \<open>unfollowUser(c,d)\<close> answered 200 neither is left.
\<close>

theorem follow_relation_kept:
  "(isObjectId b \<and> follow f a b st = Some (r, st') \<longrightarrow>
      (followConsistent st \<longrightarrow>
         followConsistent st' \<or>
         (status r = 500 \<and> f UserSave \<and> b \<in> set (followedUsersOf st' a) \<and>
          a \<notin> set (followersOf st' b))) \<and>
      (status r = 200 \<longrightarrow>
         b \<in> set (followedUsersOf st' a) \<and> a \<in> set (followersOf st' b))) \<and>
   (isObjectId d \<and> unfollow g c d su = Some (q, su') \<longrightarrow>
      (followConsistent su \<longrightarrow>
         followConsistent su' \<or>
         (status q = 500 \<and> g UserSave \<and> d \<notin> set (followedUsersOf su' c) \<and>
          c \<in> set (followersOf su' d))) \<and>
      (status q = 200 \<longrightarrow>
         d \<notin> set (followedUsersOf su' c) \<and> c \<notin> set (followersOf su' d)))"
proof (intro conjI impI; (elim conjE)?)
  assume h: "follow f a b st = Some (r, st')" "isObjectId b" and i: "followConsistent st"
  from follow_outcomes [OF h] i
  show "followConsistent st' \<or>
        (status r = 500 \<and> f UserSave \<and> b \<in> set (followedUsersOf st' a) \<and>
         a \<notin> set (followersOf st' b))"
    unfolding followConsistent_def by (elim disjE) auto
next
  assume h: "follow f a b st = Some (r, st')" "isObjectId b" and "status r = 200"
  with follow_outcomes [OF h]
  show "b \<in> set (followedUsersOf st' a)" "a \<in> set (followersOf st' b)" by auto
next
  assume h: "unfollow g c d su = Some (q, su')" "isObjectId d" and i: "followConsistent su"
  from unfollow_outcomes [OF h] i
  show "followConsistent su' \<or>
        (status q = 500 \<and> g UserSave \<and> d \<notin> set (followedUsersOf su' c) \<and>
         c \<in> set (followersOf su' d))"
    unfolding followConsistent_def by (elim disjE) auto
next
  assume h: "unfollow g c d su = Some (q, su')" "isObjectId d" and "status q = 200"
  with unfollow_outcomes [OF h]
  show "d \<notin> set (followedUsersOf su' c)" "c \<notin> set (followersOf su' d)" by auto
qed

theorem follow_relation_kept_witness:
  "isObjectId bob \<and>
   follow noFault alice bob twoUsers =
     Some (Response 200 (FollowLists [bob] [alice]), following) \<and>
   followConsistent twoUsers \<and> followConsistent following \<and>
   bob \<in> set (followedUsersOf following alice) \<and>
   alice \<in> set (followersOf following bob) \<and>
   unfollow noFault alice bob following = Some (Response 200 (FollowLists [] []), twoUsers) \<and>
   bob \<notin> set (followedUsersOf twoUsers alice) \<and>
   alice \<notin> set (followersOf twoUsers bob)"
proof -
  note d = scenario_distinct(1) scenario_ids(2)
  have f: "follow noFault alice bob twoUsers =
             Some (Response 200 (FollowLists [bob] [alice]), following)"
    by (simp add: follow_result [OF d twoUsers_users] following_def oneSided_def
        newUser_fields)
  have "unfollow noFault alice bob following =
          Some (Response 200 (FollowLists [] []),
                writeUser (writeUser following alice newUser) bob newUser)"
    using d(1) by (simp add: unfollow_result [OF d following_users] newUser_def)
  then have g: "unfollow noFault alice bob following =
                  Some (Response 200 (FollowLists [] []), twoUsers)"
    by (simp add: following_def oneSided_def writeUser_restore [OF d(1) twoUsers_users])
  show ?thesis
    using follow_relation_kept [of bob noFault alice twoUsers
        "Response 200 (FollowLists [bob] [alice])" following
        bob noFault alice following "Response 200 (FollowLists [] [])" twoUsers]
      f g twoUsers_consistent d(2)
    by simp
qed

text \<open>
  C1, as the spec states it, fails on a call whose second save throws: Alice has saved
  Bob in her \<open>followedUsers\<close>, the save of Bob's document throws, the call is answered
  500 and the store is left with one side of the edge.
\<close>

theorem follow_one_sided_counterexample:
  "followConsistent twoUsers \<and>
   follow (onlyFault UserSave) alice bob twoUsers =
     Some (Response 500 (Message ''Server error while following user''), oneSided) \<and>
   bob \<in> set (followedUsersOf oneSided alice) \<and>
   alice \<notin> set (followersOf oneSided bob) \<and>
   \<not> followConsistent oneSided"
proof -
  have f: "follow (onlyFault UserSave) alice bob twoUsers =
             Some (Response 500 (Message ''Server error while following user''), oneSided)"
    by (simp add: call_defs handler_defs findById_def includesId_simps push_def save_def
        castObjectId_canonical scenario_ids scenario_distinct onlyFault_def twoUsers_users
        newUser_fields users_writeUser oneSided_def)
  have "\<not> followConsistent oneSided"
  proof
    assume "followConsistent oneSided"
    moreover have "alice \<in> dom (users oneSided)" "bob \<in> dom (users oneSided)"
      using oneSided_users by auto
    ultimately have "(alice \<in> set (followersOf oneSided bob)) =
                     (bob \<in> set (followedUsersOf oneSided alice))"
      unfolding followConsistent_def by blast
    then show False by (simp add: oneSided_lists)
  qed
  with f twoUsers_consistent show ?thesis by (simp add: oneSided_lists)
qed

section \<open>Bookmarks\<close>

text \<open>
  The calls for a resource that the request names by the string form of its id, on a
  store that answers every call: a second \<open>bookmarkResource\<close> changes nothing, and
  \<open>unbookmarkResource\<close> of a resource that is not bookmarked changes nothing.
\<close>

lemma bookmark_result:
  assumes "users st u = Some d" and "isObjectId r"
  shows "bookmark noFault u (Some r) st =
     Some (Response 200
             (IdList (if r \<in> set (bookmarkedResources d) then bookmarkedResources d
                      else bookmarkedResources d @ [r])),
           writeUser st u
             (d\<lparr>bookmarkedResources :=
                  if r \<in> set (bookmarkedResources d) then bookmarkedResources d
                  else bookmarkedResources d @ [r]\<rparr>))"
proof -
  have c: "castObjectId r = Some r" and e: "r \<noteq> ''''"
    using assms(2) by (auto simp: castObjectId_canonical isObjectId_def)
  show ?thesis
    using assms(1) e
    by (auto simp: call_defs handler_defs driver_simps c writeUser_same)
qed

lemma bookmark_twice_same_string:
  assumes "users st u = Some d" and "isObjectId r"
    and "bookmark noFault u (Some r) st = Some (r1, st1)"
  shows "bookmark noFault u (Some r) st1 = Some (r1, st1) \<and> status r1 = 200"
proof -
  let ?d = "d\<lparr>bookmarkedResources :=
                 if r \<in> set (bookmarkedResources d) then bookmarkedResources d
                 else bookmarkedResources d @ [r]\<rparr>"
  from assms(3) have st1: "st1 = writeUser st u ?d"
    and r1: "r1 = Response 200 (IdList (bookmarkedResources ?d))"
    by (auto simp: bookmark_result [OF assms(1,2)])
  have u1: "users st1 u = Some ?d"
    by (simp add: st1 users_writeUser)
  have "r \<in> set (bookmarkedResources ?d)" by simp
  then show ?thesis
    using writeUser_same [OF u1]
    by (simp add: bookmark_result [OF u1 assms(2)] r1)
qed

lemma unbookmark_absent:
  assumes "users st u = Some d" and "r \<noteq> ''''" and "r \<notin> set (bookmarkedResources d)"
  shows "unbookmark noFault u (Some r) st =
           Some (Response 200 (IdList (bookmarkedResources d)), st)"
  using assms by (simp add: call_defs handler_defs driver_simps)

text \<open>
  C8 fails on the code. Alice bookmarks the same resource twice and writes its id with
  the letters in upper case. In the second call \<open>includes\<close> compares the upper-case
  string with the stored id, misses it, and \<open>push\<close> casts the string and appends the
  id again: the resource occurs twice in her bookmarks.
\<close>

theorem bookmark_twice_case_variant:
  "castObjectId BOOK = Some book \<and>
   bookmark noFault alice (Some BOOK) twoUsers =
     Some (Response 200 (IdList [book]),
           writeUser twoUsers alice (newUser\<lparr>bookmarkedResources := [book]\<rparr>)) \<and>
   bookmark noFault alice (Some BOOK)
       (writeUser twoUsers alice (newUser\<lparr>bookmarkedResources := [book]\<rparr>)) =
     Some (Response 200 (IdList [book, book]),
           writeUser twoUsers alice (newUser\<lparr>bookmarkedResources := [book, book]\<rparr>)) \<and>
   bookmarksOf (writeUser twoUsers alice (newUser\<lparr>bookmarkedResources := [book, book]\<rparr>))
     alice = [book, book] \<and>
   count_list [book, book] book = 2"
  by (simp add: call_defs handler_defs driver_simps scenario_casts scenario_distinct
      twoUsers_users newUser_fields users_writeUser writeUser_twice bookmarksOf_writeUser)

section \<open>Vote counts on the topic read path\<close>

lemma find_filter_conv:
  "find P xs = (case filter P xs of [] \<Rightarrow> None | x # ys \<Rightarrow> Some x)"
  by (induction xs) simp_all

lemma voteFindOne_votesFor:
  "\<not> f (VoteFindOne r) \<Longrightarrow>
   voteFindOne f st r = Inr (case votesFor st r of [] \<Rightarrow> None | v # vs \<Rightarrow> Some v)"
  by (simp add: voteFindOne_def votesFor_def find_filter_conv)

lemma has_vote_iff: "(r \<in> resource ` set (votes st)) = (votesFor st r \<noteq> [])"
  by (auto simp: votesFor_def filter_empty_conv)

lemma voteCreate_votesFor:
  "\<not> f (VoteCreate (resource v)) \<Longrightarrow>
   voteCreate f st v =
     (if votesFor st (resource v) \<noteq> [] then Inl ConflictOnCreate
      else Inr (v, st\<lparr>votes := votes st @ [v]\<rparr>))"
  by (simp add: voteCreate_def has_vote_iff)

lemma votesFor_append:
  "votesFor (st\<lparr>votes := votes st @ [v]\<rparr>) r =
     (if resource v = r then votesFor st r @ [v] else votesFor st r)"
  by (simp add: votesFor_def)

lemma find_rid: "find (\<lambda>d. rid d = i) ds = Some d \<Longrightarrow> rid d = i"
  by (induction ds) (auto split: if_splits)

lemma populate_rids:
  "map rid (populate st t) =
     filter (\<lambda>i. find (\<lambda>d. rid d = i) (resourceDocs st) \<noteq> None) (resources t)"
proof -
  have "map rid (List.map_filter (\<lambda>i. find (\<lambda>d. rid d = i) ds) is) =
        filter (\<lambda>i. find (\<lambda>d. rid d = i) ds \<noteq> None) is" for ds :: "resourceDoc list" and "is"
    by (induction "is") (auto simp: List.map_filter_simps split: option.splits dest: find_rid)
  then show ?thesis by (simp add: populate_def)
qed

lemma populate_distinct: "distinct (resources t) \<Longrightarrow> distinct (map rid (populate st t))"
  by (simp add: populate_rids)

text \<open>
  A callback whose resource has the same Vote documents now as when its \<open>findOne\<close> was
  answered returns the counts of \<open>tally\<close>, and creates the empty Vote document when
  there was none.
\<close>

lemma withVotes_undisturbed:
  assumes "votesFor st (rid res) = votesFor seen (rid res)"
  shows "withVotes noFault seen res st =
     (Inr (res, tally seen (rid res)),
      if votesFor seen (rid res) = [] then st\<lparr>votes := votes st @ [emptyVote (rid res)]\<rparr>
      else st)"
proof (cases "votesFor seen (rid res)")
  case Nil
  with assms show ?thesis
    by (simp add: withVotes_def voteFindOne_votesFor voteCreate_votesFor noFault_never
        tally_def emptyVote_def)
next
  case (Cons v vs)
  then show ?thesis
    by (simp add: withVotes_def voteFindOne_votesFor noFault_never tally_def)
qed

lemma mapCallbacks_undisturbed:
  assumes "distinct (map rid rs)"
    and "\<forall>res \<in> set rs. votesFor st (rid res) = votesFor seen (rid res)"
  shows "fst (mapCallbacks noFault seen rs st) =
           map (\<lambda>res. Inr (res, tally seen (rid res))) rs \<and>
         (\<forall>r. votesFor (snd (mapCallbacks noFault seen rs st)) r =
            (if r \<in> rid ` set rs \<and> votesFor seen r = [] then [emptyVote r]
             else votesFor st r)) \<and>
         users (snd (mapCallbacks noFault seen rs st)) = users st \<and>
         topics (snd (mapCallbacks noFault seen rs st)) = topics st \<and>
         resourceDocs (snd (mapCallbacks noFault seen rs st)) = resourceDocs st"
  using assms
proof (induction rs arbitrary: st)
  case Nil
  show ?case by simp
next
  case (Cons res rest)
  let ?st1 = "if votesFor seen (rid res) = []
              then st\<lparr>votes := votes st @ [emptyVote (rid res)]\<rparr> else st"
  have same: "votesFor st (rid res) = votesFor seen (rid res)"
    using Cons.prems(2) by simp
  have w: "withVotes noFault seen res st = (Inr (res, tally seen (rid res)), ?st1)"
    by (rule withVotes_undisturbed [OF same])
  have v1: "votesFor ?st1 r =
              (if r = rid res \<and> votesFor seen r = [] then [emptyVote r] else votesFor st r)"
    for r
    using same by (auto simp: votesFor_append emptyVote_def)
  have d: "distinct (map rid rest)" and "rid res \<notin> rid ` set rest"
    using Cons.prems(1) by simp_all
  then have fresh: "\<forall>x \<in> set rest. rid x \<noteq> rid res"
    by (metis image_eqI)
  have "\<forall>x \<in> set rest. votesFor ?st1 (rid x) = votesFor seen (rid x)"
    using Cons.prems(2) fresh unfolding v1 by auto
  note IH = Cons.IH [OF d this]
  have step: "mapCallbacks noFault seen (res # rest) st =
                (Inr (res, tally seen (rid res)) # fst (mapCallbacks noFault seen rest ?st1),
                 snd (mapCallbacks noFault seen rest ?st1))"
    by (simp add: w split: prod.splits)
  have votes: "votesFor (snd (mapCallbacks noFault seen rest ?st1)) r =
      (if r \<in> rid ` set (res # rest) \<and> votesFor seen r = [] then [emptyVote r]
       else votesFor st r)" for r
    using IH v1 [of r] by auto
  have rest: "users ?st1 = users st" "topics ?st1 = topics st"
    "resourceDocs ?st1 = resourceDocs st"
    by simp_all
  show ?case
    unfolding step using IH votes rest by simp
qed

lemma awaitAll_results: "awaitAll (map Inr xs) = Inr xs"
  by (induction xs) simp_all

lemma awaitAll_rejected: "Inl e \<in> set outs \<Longrightarrow> \<exists>e'. awaitAll outs = Inl e'"
proof (induction outs)
  case Nil
  then show ?case by simp
next
  case (Cons out outs)
  then show ?case by (cases out) (auto split: sum.splits)
qed

text \<open>
  C6. When the slug resolves to a topic that lists no resource twice, every store call
  answers and nobody else writes, fetching the topic is answered 200 with each resource
  of the topic annotated with the counts of \<open>tally\<close>: zero and zero when the resource
  has no Vote document, the sizes of the two lists of its (first) Vote document
  otherwise. The store that results differs in Vote documents only: a resource of the
  topic that had none has exactly one, with empty lists, and the Vote documents of every
  other resource are as they were.
\<close>

theorem topic_fetch_tallies:
  assumes "find (\<lambda>t. slug t = s) (topics st) = Some t" and "distinct (resources t)"
    and "getTopicBySlug noFault quiet s st = (rsp, st')"
  shows "rsp = Response 200
                 (TopicJson t (map (\<lambda>res. (res, tally st (rid res))) (populate st t))) \<and>
         (\<forall>r. votesFor st r = [] \<longrightarrow> tally st r = (0, 0)) \<and>
         (\<forall>r v vs. votesFor st r = v # vs \<longrightarrow>
            tally st r = (length (upvoters v), length (downvoters v))) \<and>
         (\<forall>r. votesFor st' r =
            (if r \<in> rid ` set (populate st t) \<and> votesFor st r = [] then [emptyVote r]
             else votesFor st r)) \<and>
         users st' = users st \<and> topics st' = topics st \<and> resourceDocs st' = resourceDocs st"
proof -
  let ?m = "mapCallbacks noFault st (populate st t) st"
  note m = mapCallbacks_undisturbed [OF populate_distinct [OF assms(2), of st], of st st]
  have outs: "awaitAll (fst ?m) = Inr (map (\<lambda>res. (res, tally st (rid res))) (populate st t))"
    using awaitAll_results [of "map (\<lambda>res. (res, tally st (rid res))) (populate st t)"] m
    by (simp add: comp_def)
  from assms(1,3) have "rsp = Response 200
        (TopicJson t (map (\<lambda>res. (res, tally st (rid res))) (populate st t)))"
    and "st' = snd ?m"
    using outs
    by (auto simp: getTopicBySlug_def topicFindOne_def noFault_never quiet_def
        split: prod.splits)
  then show ?thesis
    using m by (simp add: tally_def)
qed

lemma oneTopic_found: "find (\<lambda>t. slug t = ''logic'') (topics oneTopic) = Some logicTopic"
  by (simp add: oneTopic_def logicTopic_def)

lemma oneTopic_populate: "populate oneTopic logicTopic = [resource1, resource2]"
  by (simp add: populate_def oneTopic_def logicTopic_def resource1_def resource2_def
      List.map_filter_simps)

lemma oneTopic_votesFor:
  "votesFor oneTopic ''r1'' = []"
  "votesFor oneTopic ''r2'' =
     [\<lparr>resource = ''r2'', upvoters = [''1'', ''2''], downvoters = [''3'']\<rparr>]"
  by (simp_all add: votesFor_def oneTopic_def)

lemma oneTopic_tally: "tally oneTopic ''r1'' = (0, 0)" "tally oneTopic ''r2'' = (2, 1)"
  by (simp_all add: tally_def oneTopic_votesFor)

lemma oneTopic_quiet:
  "mapCallbacks noFault oneTopic [resource1, resource2] oneTopic =
     ([Inr (resource1, 0, 0), Inr (resource2, 2, 1)],
      oneTopic\<lparr>votes := votes oneTopic @ [emptyVote ''r1'']\<rparr>)"
proof -
  let ?st' = "oneTopic\<lparr>votes := votes oneTopic @ [emptyVote ''r1'']\<rparr>"
  have 1: "withVotes noFault oneTopic resource1 oneTopic = (Inr (resource1, 0, 0), ?st')"
    using withVotes_undisturbed [of oneTopic resource1 oneTopic]
    by (simp add: resource1_def oneTopic_votesFor oneTopic_tally)
  have "votesFor ?st' ''r2'' = votesFor oneTopic ''r2''"
    by (simp add: votesFor_append emptyVote_def)
  then have 2: "withVotes noFault oneTopic resource2 ?st' = (Inr (resource2, 2, 1), ?st')"
    using withVotes_undisturbed [of ?st' resource2 oneTopic]
    by (simp add: resource2_def oneTopic_votesFor oneTopic_tally)
  show ?thesis by (simp add: 1 2)
qed

theorem topic_fetch_tallies_witness:
  "find (\<lambda>t. slug t = ''logic'') (topics oneTopic) = Some logicTopic \<and>
   distinct (resources logicTopic) \<and>
   getTopicBySlug noFault quiet ''logic'' oneTopic =
     (Response 200 (TopicJson logicTopic [(resource1, 0, 0), (resource2, 2, 1)]),
      oneTopic\<lparr>votes := votes oneTopic @ [emptyVote ''r1'']\<rparr>) \<and>
   tally oneTopic ''r1'' = (0, 0) \<and> tally oneTopic ''r2'' = (2, 1) \<and>
   votesFor (oneTopic\<lparr>votes := votes oneTopic @ [emptyVote ''r1'']\<rparr>) ''r1'' =
     [emptyVote ''r1''] \<and>
   votesFor (oneTopic\<lparr>votes := votes oneTopic @ [emptyVote ''r1'']\<rparr>) ''r2'' =
     votesFor oneTopic ''r2'' \<and>
   users (oneTopic\<lparr>votes := votes oneTopic @ [emptyVote ''r1'']\<rparr>) = users oneTopic"
proof -
  let ?st' = "oneTopic\<lparr>votes := votes oneTopic @ [emptyVote ''r1'']\<rparr>"
  have d: "distinct (resources logicTopic)"
    by (simp add: logicTopic_def)
  have g: "getTopicBySlug noFault quiet ''logic'' oneTopic =
             (Response 200 (TopicJson logicTopic [(resource1, 0, 0), (resource2, 2, 1)]), ?st')"
    by (simp add: getTopicBySlug_def topicFindOne_def oneTopic_found oneTopic_populate
        oneTopic_quiet quiet_def noFault_never del: mapCallbacks.simps)
  show ?thesis
    using topic_fetch_tallies [OF oneTopic_found d g] oneTopic_found d g oneTopic_tally
    by (simp add: oneTopic_populate oneTopic_votesFor resource1_def resource2_def)
qed

section \<open>A conflicting create on the topic read path\<close>

lemma withVotes_conflict:
  assumes "\<not> f (VoteFindOne (rid res))" and "\<not> f (VoteCreate (rid res))"
    and "votesFor seen (rid res) = []" and "votesFor st (rid res) \<noteq> []"
  shows "withVotes f seen res st = (Inl ConflictOnCreate, st)"
  using assms by (simp add: withVotes_def voteFindOne_votesFor voteCreate_votesFor)

lemma withVotes_keeps_votes:
  "votesFor st r \<noteq> [] \<Longrightarrow> votesFor (snd (withVotes f seen x st)) r \<noteq> []"
  by (auto simp: withVotes_def voteCreate_def votesFor_append
      split: sum.splits option.splits if_splits)

lemma mapCallbacks_conflict:
  assumes "res \<in> set rs" and "\<not> f (VoteFindOne (rid res))" and "\<not> f (VoteCreate (rid res))"
    and "votesFor seen (rid res) = []" and "votesFor st (rid res) \<noteq> []"
  shows "Inl ConflictOnCreate \<in> set (fst (mapCallbacks f seen rs st))"
  using assms(1,5)
proof (induction rs arbitrary: st)
  case Nil
  then show ?case by simp
next
  case (Cons x rest)
  show ?case
  proof (cases "x = res")
    case True
    then show ?thesis
      using withVotes_conflict [OF assms(2-4) Cons.prems(2)]
      by (simp split: prod.splits)
  next
    case False
    with Cons.prems(1) have "res \<in> set rest" by simp
    from Cons.IH [OF this withVotes_keeps_votes [OF Cons.prems(2)], of f seen x]
    show ?thesis
      by (auto split: prod.splits)
  qed
qed

text \<open>
  C7, as the code has it. A callback found no Vote document for its resource, another
  request has created one before the callback resumes, and \<open>create\<close> therefore reports
  a conflict: the callback throws that conflict without reading again, and the fetch is
  answered 500 "Server error while fetching topic".
\<close>

theorem create_conflict_answered_500:
  assumes "\<not> f TopicFindOne" and "find (\<lambda>t. slug t = s) (topics st) = Some t"
    and "res \<in> set (populate st t)"
    and "\<not> f (VoteFindOne (rid res))" and "\<not> f (VoteCreate (rid res))"
    and "votesFor st (rid res) = []" and "votesFor (w st) (rid res) \<noteq> []"
  shows "withVotes f st res (w st) = (Inl ConflictOnCreate, w st) \<and>
         fst (getTopicBySlug f w s st) =
           Response 500 (Message ''Server error while fetching topic'')"
proof -
  obtain e where "awaitAll (fst (mapCallbacks f st (populate st t) (w st))) = Inl e"
    using awaitAll_rejected [OF mapCallbacks_conflict [OF assms(3-7)]] by blast
  then have "fst (getTopicBySlug f w s st) =
               Response 500 (Message ''Server error while fetching topic'')"
    using assms(1,2) by (auto simp: getTopicBySlug_def topicFindOne_def split: prod.splits)
  with withVotes_conflict [OF assms(4-7)] show ?thesis by simp
qed

lemma firstVote_votesFor:
  "votesFor (firstVote oneTopic) ''r1'' =
     [\<lparr>resource = ''r1'', upvoters = [''1''], downvoters = []\<rparr>]"
  "votesFor (firstVote oneTopic) ''r2'' = votesFor oneTopic ''r2''"
  by (simp_all add: firstVote_def votesFor_append oneTopic_votesFor)

theorem create_conflict_answered_500_witness:
  "\<not> noFault TopicFindOne \<and>
   find (\<lambda>t. slug t = ''logic'') (topics oneTopic) = Some logicTopic \<and>
   resource1 \<in> set (populate oneTopic logicTopic) \<and>
   \<not> noFault (VoteFindOne (rid resource1)) \<and> \<not> noFault (VoteCreate (rid resource1)) \<and>
   votesFor oneTopic (rid resource1) = [] \<and>
   votesFor (firstVote oneTopic) (rid resource1) \<noteq> [] \<and>
   withVotes noFault oneTopic resource1 (firstVote oneTopic) =
     (Inl ConflictOnCreate, firstVote oneTopic) \<and>
   fst (getTopicBySlug noFault firstVote ''logic'' oneTopic) =
     Response 500 (Message ''Server error while fetching topic'')"
proof -
  have r: "rid resource1 = ''r1''" by (simp add: resource1_def)
  show ?thesis
    using create_conflict_answered_500 [of noFault "''logic''" oneTopic logicTopic resource1
        firstVote]
    by (simp add: r noFault_never oneTopic_votesFor firstVote_votesFor oneTopic_found
        oneTopic_populate)
qed

text \<open>
  C7, as the spec states it, fails: in the fetch below another request creates the Vote
  document of \<open>r1\<close> between the callback's \<open>findOne\<close> and its \<open>create\<close>. The Vote
  document is in the store afterwards, and the request is answered 500.
\<close>

theorem create_conflict_counterexample:
  "votesFor oneTopic ''r1'' = [] \<and>
   getTopicBySlug noFault firstVote ''logic'' oneTopic =
     (Response 500 (Message ''Server error while fetching topic''), firstVote oneTopic) \<and>
   votesFor (firstVote oneTopic) ''r1'' =
     [\<lparr>resource = ''r1'', upvoters = [''1''], downvoters = []\<rparr>]"
proof -
  have 1: "withVotes noFault oneTopic resource1 (firstVote oneTopic) =
             (Inl ConflictOnCreate, firstVote oneTopic)"
    by (rule withVotes_conflict)
      (simp_all add: noFault_never resource1_def oneTopic_votesFor firstVote_votesFor)
  have 2: "withVotes noFault oneTopic resource2 (firstVote oneTopic) =
             (Inr (resource2, 2, 1), firstVote oneTopic)"
    using withVotes_undisturbed [of "firstVote oneTopic" resource2 oneTopic]
    by (simp add: resource2_def oneTopic_votesFor firstVote_votesFor oneTopic_tally)
  have "mapCallbacks noFault oneTopic [resource1, resource2] (firstVote oneTopic) =
          ([Inl ConflictOnCreate, Inr (resource2, 2, 1)], firstVote oneTopic)"
    by (simp add: 1 2)
  then show ?thesis
    by (simp add: getTopicBySlug_def topicFindOne_def noFault_never oneTopic_found
        oneTopic_populate oneTopic_votesFor firstVote_votesFor del: mapCallbacks.simps)
qed

end
